theory Spec2Isabelle
  imports Main
begin

section \<open>Python strings\<close>

text \<open>
  A Python \<open>str\<close> is modelled as a \<open>string\<close> whose characters are the code points
  below 256. The character predicates of Python (\<open>str.isspace\<close>, the regular
  expression classes \<open>\s\<close>, \<open>\w\<close>, \<open>\d\<close>, and \<open>str.lower\<close>) are written out for that
  range.
\<close>

text \<open>\<open>str.isspace\<close> and the class \<open>\s\<close>: tab, newline, vertical tab, form feed,
  carriage return, the separators 28 to 31, space, NEL (133) and the no-break space (160).\<close>

definition space_chars :: "char list" where
  "space_chars =
     [CHR 0x09, CHR 0x0A, CHR 0x0B, CHR 0x0C, CHR 0x0D, CHR 0x1C, CHR 0x1D, CHR 0x1E, CHR 0x1F,
     CHR 0x20, CHR 0x85, CHR 0xA0]"

definition is_space :: "char \<Rightarrow> bool" where
  "is_space c = (c \<in> set space_chars)"

definition upper_ascii :: "char list" where
  "upper_ascii = ''ABCDEFGHIJKLMNOPQRSTUVWXYZ''"

definition lower_ascii :: "char list" where
  "lower_ascii = ''abcdefghijklmnopqrstuvwxyz''"

definition digits :: "char list" where
  "digits = ''0123456789''"

text \<open>The classes \<open>[A-Z]\<close>, \<open>[a-z]\<close>, \<open>[A-Za-z]\<close> and \<open>\d\<close>.\<close>

definition is_upper_ascii :: "char \<Rightarrow> bool" where
  "is_upper_ascii c = (c \<in> set upper_ascii)"

definition is_lower_ascii :: "char \<Rightarrow> bool" where
  "is_lower_ascii c = (c \<in> set lower_ascii)"

definition is_alpha_ascii :: "char \<Rightarrow> bool" where
  "is_alpha_ascii c = (is_upper_ascii c \<or> is_lower_ascii c)"

definition is_digit :: "char \<Rightarrow> bool" where
  "is_digit c = (c \<in> set digits)"

text \<open>The upper-case letters from 192 to 222 (all but the sign 215) and their lower-case
  forms, 32 code points higher.\<close>

definition upper_latin1 :: "char list" where
  "upper_latin1 =
     [CHR 0xC0, CHR 0xC1, CHR 0xC2, CHR 0xC3, CHR 0xC4, CHR 0xC5, CHR 0xC6, CHR 0xC7, CHR 0xC8,
     CHR 0xC9, CHR 0xCA, CHR 0xCB, CHR 0xCC, CHR 0xCD, CHR 0xCE, CHR 0xCF, CHR 0xD0, CHR 0xD1,
     CHR 0xD2, CHR 0xD3, CHR 0xD4, CHR 0xD5, CHR 0xD6, CHR 0xD8, CHR 0xD9, CHR 0xDA, CHR 0xDB,
     CHR 0xDC, CHR 0xDD, CHR 0xDE]"

definition lower_latin1 :: "char list" where
  "lower_latin1 =
     [CHR 0xE0, CHR 0xE1, CHR 0xE2, CHR 0xE3, CHR 0xE4, CHR 0xE5, CHR 0xE6, CHR 0xE7, CHR 0xE8,
     CHR 0xE9, CHR 0xEA, CHR 0xEB, CHR 0xEC, CHR 0xED, CHR 0xEE, CHR 0xEF, CHR 0xF0, CHR 0xF1,
     CHR 0xF2, CHR 0xF3, CHR 0xF4, CHR 0xF5, CHR 0xF6, CHR 0xF8, CHR 0xF9, CHR 0xFA, CHR 0xFB,
     CHR 0xFC, CHR 0xFD, CHR 0xFE]"

text \<open>The class \<open>\w\<close> of a Unicode pattern: the alphanumeric code points and the
  underscore. Beyond ASCII these are 170, 178, 179, 181, 185, 186, 188 to 190 and the
  letters from 192 on (all but the signs 215 and 247).\<close>

definition word_latin1 :: "char list" where
  "word_latin1 =
     [CHR 0xAA, CHR 0xB2, CHR 0xB3, CHR 0xB5, CHR 0xB9, CHR 0xBA, CHR 0xBC, CHR 0xBD, CHR 0xBE,
     CHR 0xC0, CHR 0xC1, CHR 0xC2, CHR 0xC3, CHR 0xC4, CHR 0xC5, CHR 0xC6, CHR 0xC7, CHR 0xC8,
     CHR 0xC9, CHR 0xCA, CHR 0xCB, CHR 0xCC, CHR 0xCD, CHR 0xCE, CHR 0xCF, CHR 0xD0, CHR 0xD1,
     CHR 0xD2, CHR 0xD3, CHR 0xD4, CHR 0xD5, CHR 0xD6, CHR 0xD8, CHR 0xD9, CHR 0xDA, CHR 0xDB,
     CHR 0xDC, CHR 0xDD, CHR 0xDE, CHR 0xDF, CHR 0xE0, CHR 0xE1, CHR 0xE2, CHR 0xE3, CHR 0xE4,
     CHR 0xE5, CHR 0xE6, CHR 0xE7, CHR 0xE8, CHR 0xE9, CHR 0xEA, CHR 0xEB, CHR 0xEC, CHR 0xED,
     CHR 0xEE, CHR 0xEF, CHR 0xF0, CHR 0xF1, CHR 0xF2, CHR 0xF3, CHR 0xF4, CHR 0xF5, CHR 0xF6,
     CHR 0xF8, CHR 0xF9, CHR 0xFA, CHR 0xFB, CHR 0xFC, CHR 0xFD, CHR 0xFE, CHR 0xFF]"

definition is_word :: "char \<Rightarrow> bool" where
  "is_word c = (is_alpha_ascii c \<or> is_digit c \<or> c = CHR ''_'' \<or> c \<in> set word_latin1)"

text \<open>\<open>str.lower\<close>, character by character.\<close>

definition lower_char :: "char \<Rightarrow> char" where
  "lower_char c =
     (case map_of (zip (upper_ascii @ upper_latin1) (lower_ascii @ lower_latin1)) c of
        Some d \<Rightarrow> d
      | None \<Rightarrow> c)"

definition lower :: "string \<Rightarrow> string" where
  "lower s = map lower_char s"

text \<open>\<open>s.startswith(p)\<close>, \<open>s.endswith(p)\<close> and \<open>p in s\<close>.\<close>

fun startswith :: "string \<Rightarrow> string \<Rightarrow> bool" where
  "startswith s [] = True"
| "startswith [] (p # ps) = False"
| "startswith (c # cs) (p # ps) = (c = p \<and> startswith cs ps)"

definition endswith :: "string \<Rightarrow> string \<Rightarrow> bool" where
  "endswith s p = startswith (rev s) (rev p)"

text \<open>\<open>s.startswith(p)\<close> when case is ignored.\<close>

fun startswith_ci :: "string \<Rightarrow> string \<Rightarrow> bool" where
  "startswith_ci s [] = True"
| "startswith_ci [] (p # ps) = False"
| "startswith_ci (c # cs) (p # ps) = (lower_char c = lower_char p \<and> startswith_ci cs ps)"

fun contains :: "string \<Rightarrow> string \<Rightarrow> bool" where
  "contains [] p = (p = [])"
| "contains (c # cs) p = (startswith (c # cs) p \<or> contains cs p)"

text \<open>\<open>s.strip()\<close>: whitespace removed at both ends.\<close>

definition lstrip :: "string \<Rightarrow> string" where
  "lstrip s = dropWhile is_space s"

definition rstrip :: "string \<Rightarrow> string" where
  "rstrip s = rev (dropWhile is_space (rev s))"

definition strip :: "string \<Rightarrow> string" where
  "strip s = rstrip (lstrip s)"

text \<open>\<open>s.split()\<close>: the maximal runs of non-whitespace characters, in order.\<close>

fun split_acc :: "string \<Rightarrow> string \<Rightarrow> string list" where
  "split_acc cur [] = (if cur = [] then [] else [cur])"
| "split_acc cur (c # cs) =
     (if is_space c then (if cur = [] then split_acc [] cs else cur # split_acc [] cs)
      else split_acc (cur @ [c]) cs)"

definition split_ws :: "string \<Rightarrow> string list" where
  "split_ws s = split_acc [] s"

text \<open>\<open>s.split(sep)\<close> for a one-character separator: empty pieces are kept.\<close>

fun split_on_acc :: "char \<Rightarrow> string \<Rightarrow> string \<Rightarrow> string list" where
  "split_on_acc sep cur [] = [cur]"
| "split_on_acc sep cur (c # cs) =
     (if c = sep then cur # split_on_acc sep [] cs else split_on_acc sep (cur @ [c]) cs)"

definition split_on :: "char \<Rightarrow> string \<Rightarrow> string list" where
  "split_on sep s = split_on_acc sep [] s"

text \<open>\<open>sep.join(parts)\<close>.\<close>

fun join :: "string \<Rightarrow> string list \<Rightarrow> string" where
  "join sep [] = []"
| "join sep [p] = p"
| "join sep (p # q # ps) = p @ sep @ join sep (q # ps)"

section \<open>Regular expressions\<close>

text \<open>
  The patterns of the program, for the backtracking matcher of Python's \<open>re\<close> module.
  A repetition is always of a character class, which is all the program uses.
\<close>

datatype regex =
    Lit string                              \<comment> \<open>literal text\<close>
  | LitI string                             \<comment> \<open>literal text under \<open>re.IGNORECASE\<close>\<close>
  | Rep "char \<Rightarrow> bool" nat "nat option"      \<comment> \<open>greedy \<open>[..]{lo,hi}\<close>; no \<open>hi\<close> is unbounded\<close>
  | Lazy "char \<Rightarrow> bool"                      \<comment> \<open>non-greedy \<open>[..]*?\<close>\<close>
  | Seq regex regex
  | Alt regex regex
  | Opt regex                               \<comment> \<open>greedy \<open>(?:..)?\<close>\<close>
  | Grp nat regex                           \<comment> \<open>capturing group number n\<close>
  | Ahead regex                             \<comment> \<open>lookahead \<open>(?=..)\<close>\<close>
  | WordB                                   \<comment> \<open>\<open>\b\<close>\<close>
  | Eol                                     \<comment> \<open>\<open>$\<close>\<close>

text \<open>
  A matcher state: the text before the current position (reversed, nearest character first),
  the text from the current position on, and the groups captured so far.
\<close>

type_synonym mstate = "string \<times> string \<times> (nat \<rightharpoonup> string)"

definition advance :: "nat \<Rightarrow> mstate \<Rightarrow> mstate" where
  "advance n st = (case st of (bef, rest, g) \<Rightarrow> (rev (take n rest) @ bef, drop n rest, g))"

definition at_boundary :: "string \<Rightarrow> string \<Rightarrow> bool" where
  "at_boundary bef rest =
     ((case bef of [] \<Rightarrow> False | c # _ \<Rightarrow> is_word c) \<noteq> (case rest of [] \<Rightarrow> False | c # _ \<Rightarrow> is_word c))"

text \<open>
  \<open>paths r st\<close> lists the states in which a match of \<open>r\<close> from \<open>st\<close> can end, in the order
  in which the backtracking matcher tries them: a greedy repetition from the longest run
  down, a lazy one from the shortest up, the first alternative before the second. The
  matcher returns the first.
\<close>

fun paths :: "regex \<Rightarrow> mstate \<Rightarrow> mstate list" where
  "paths (Lit l) (bef, rest, g) =
     (if startswith rest l then [advance (length l) (bef, rest, g)] else [])"
| "paths (LitI l) (bef, rest, g) =
     (if startswith_ci rest l then [advance (length l) (bef, rest, g)] else [])"
| "paths (Rep p lo hi) (bef, rest, g) =
     (let run = length (takeWhile p rest);
          m = (case hi of None \<Rightarrow> run | Some h \<Rightarrow> min h run)
      in map (\<lambda>n. advance n (bef, rest, g)) (rev [lo..<Suc m]))"
| "paths (Lazy p) (bef, rest, g) =
     map (\<lambda>n. advance n (bef, rest, g)) [0..<Suc (length (takeWhile p rest))]"
| "paths (Seq a b) st = concat (map (paths b) (paths a st))"
| "paths (Alt a b) st = paths a st @ paths b st"
| "paths (Opt a) st = paths a st @ [st]"
| "paths (Grp n a) (bef, rest, g) =
     map (\<lambda>(bef', rest', g'). (bef', rest', g'(n \<mapsto> take (length rest - length rest') rest)))
       (paths a (bef, rest, g))"
| "paths (Ahead a) st = (if paths a st = [] then [] else [st])"
| "paths WordB (bef, rest, g) = (if at_boundary bef rest then [(bef, rest, g)] else [])"
| "paths Eol (bef, rest, g) = (if rest = [] \<or> rest = [CHR 0x0A] then [(bef, rest, g)] else [])"

text \<open>The result of a successful match: where it starts, its text, and its groups.\<close>

record rmatch =
  m_start :: nat
  m_text :: string
  m_groups :: "nat \<rightharpoonup> string"

definition m_end :: "rmatch \<Rightarrow> nat" where
  "m_end m = m_start m + length (m_text m)"

text \<open>\<open>match_at r bef rest\<close>: the match of \<open>r\<close> that starts exactly at the position.\<close>

definition match_at :: "regex \<Rightarrow> string \<Rightarrow> string \<Rightarrow> rmatch option" where
  "match_at r bef rest =
     (case paths r (bef, rest, Map.empty) of
        [] \<Rightarrow> None
      | (bef', rest', g) # _ \<Rightarrow>
          Some \<lparr>m_start = length bef, m_text = take (length rest - length rest') rest, m_groups = g\<rparr>)"

text \<open>\<open>re.search\<close>: the match at the leftmost position that has one.\<close>

fun search_from :: "regex \<Rightarrow> string \<Rightarrow> string \<Rightarrow> rmatch option" where
  "search_from r bef [] = match_at r bef []"
| "search_from r bef (c # cs) =
     (case match_at r bef (c # cs) of
        Some m \<Rightarrow> Some m
      | None \<Rightarrow> search_from r (c # bef) cs)"

definition re_search :: "regex \<Rightarrow> string \<Rightarrow> rmatch option" where
  "re_search r s = search_from r [] s"

text \<open>\<open>re.match\<close>: only at the start of the text.\<close>

definition re_match :: "regex \<Rightarrow> string \<Rightarrow> rmatch option" where
  "re_match r s = match_at r [] s"

text \<open>
  \<open>re.sub(r, repl, s)\<close> for a replacement without group references: the non-overlapping
  matches from left to right are replaced, an empty match also moves one character on.
\<close>

function sub_from :: "regex \<Rightarrow> string \<Rightarrow> string \<Rightarrow> string \<Rightarrow> string" where
  "sub_from r repl bef [] = (case match_at r bef [] of None \<Rightarrow> [] | Some m \<Rightarrow> repl)"
| "sub_from r repl bef (c # cs) =
     (case match_at r bef (c # cs) of
        None \<Rightarrow> c # sub_from r repl (c # bef) cs
      | Some m \<Rightarrow>
          (if m_text m = [] then repl @ c # sub_from r repl (c # bef) cs
           else repl @ sub_from r repl (rev (m_text m) @ bef) (drop (length (m_text m)) (c # cs))))"
  by pat_completeness auto
termination
  by (relation "measure (\<lambda>(r, repl, bef, rest). length rest)") auto

definition re_sub :: "regex \<Rightarrow> string \<Rightarrow> string \<Rightarrow> string" where
  "re_sub r repl s = sub_from r repl [] s"

text \<open>\<open>re.finditer\<close>: the non-overlapping matches from left to right.\<close>

function finditer_from :: "regex \<Rightarrow> string \<Rightarrow> string \<Rightarrow> rmatch list" where
  "finditer_from r bef [] = (case match_at r bef [] of None \<Rightarrow> [] | Some m \<Rightarrow> [m])"
| "finditer_from r bef (c # cs) =
     (case match_at r bef (c # cs) of
        None \<Rightarrow> finditer_from r (c # bef) cs
      | Some m \<Rightarrow>
          (if m_text m = [] then m # finditer_from r (c # bef) cs
           else m # finditer_from r (rev (m_text m) @ bef) (drop (length (m_text m)) (c # cs))))"
  by pat_completeness auto
termination
  by (relation "measure (\<lambda>(r, bef, rest). length rest)") auto

definition re_finditer :: "regex \<Rightarrow> string \<Rightarrow> rmatch list" where
  "re_finditer r s = finditer_from r [] s"

section \<open>The name formatter\<close>

text \<open>\<open>re.sub(r'\s+', ' ', s)\<close>.\<close>

definition collapse_ws :: "string \<Rightarrow> string" where
  "collapse_ws s = re_sub (Rep is_space 1 None) '' '' s"

text \<open>
  The boilerplate pass shared by the extractor and the formatter: the words
  \<open>COMPLETION\<close> and \<open>CERTIFICATE\<close> in any case, the whole word \<open>This\<close>, then whitespace
  collapsed and trimmed.
\<close>

definition strip_boilerplate :: "string \<Rightarrow> string" where
  "strip_boilerplate s =
     (let s1 = re_sub (LitI ''COMPLETION'') [] s;
          s2 = re_sub (LitI ''CERTIFICATE'') [] s1;
          s3 = re_sub (Seq WordB (Seq (Lit ''This'') WordB)) [] s2
      in strip (collapse_ws s3))"

text \<open>The class \<open>[\n\r\t\\/:*?"<>|]\<close> of the characters deleted from a file name.\<close>

definition problematic :: "char set" where
  "problematic = {CHR 0x0A, CHR 0x0D, CHR 0x09, CHR 0x5C, CHR ''/'', CHR '':'', CHR ''*'',
     CHR ''?'', CHR 0x22, CHR ''<'', CHR ''>'', CHR ''|''}"

definition is_problematic :: "char \<Rightarrow> bool" where
  "is_problematic c = (c \<in> problematic)"

definition clean_name_of :: "string \<Rightarrow> string" where
  "clean_name_of name = strip_boilerplate (re_sub (Rep is_problematic 1 (Some 1)) [] name)"

definition name_prefixes :: "string list" where
  "name_prefixes = [''de'', ''del'', ''dela'', ''della'', ''des'', ''di'', ''du'', ''el'', ''la'', ''le'',
     ''van'', ''von'', ''der'', ''den'', ''das'', ''dos'', ''da'', ''do'', ''san'', ''st'',
     ''sta.'', ''sto.'', ''sta'', ''sto'']"

text \<open>\<open>s.replace('.', '')\<close>.\<close>

definition remove_periods :: "string \<Rightarrow> string" where
  "remove_periods s = filter (\<lambda>c. c \<noteq> CHR ''.'') s"

text \<open>
  The surname of a name of at least two parts that the Sta./Sto. special case has not
  taken: the \<open>if\<close>/\<open>elif\<close> chain of the source, \<open>parts[-k]\<close> being \<open>parts ! (length parts - k)\<close>.
\<close>

definition last_name_of :: "string list \<Rightarrow> string" where
  "last_name_of name_parts =
     (let n = length name_parts in
      if n \<ge> 3 then
        (if remove_periods (lower (name_parts ! (n - 2))) \<in> set [''sta'', ''sto'']
         then name_parts ! (n - 2) @ '' '' @ name_parts ! (n - 1)
         else if lower (name_parts ! (n - 2)) \<in> set name_prefixes
         then name_parts ! (n - 2) @ '' '' @ name_parts ! (n - 1)
         else if n \<ge> 4 \<and> lower (name_parts ! (n - 3)) \<in> set name_prefixes
                 \<and> lower (name_parts ! (n - 2)) \<in> set name_prefixes
         then name_parts ! (n - 3) @ '' '' @ name_parts ! (n - 2) @ '' '' @ name_parts ! (n - 1)
         else name_parts ! (n - 1))
      else name_parts ! (n - 1))"

text \<open>\<open>format_name_for_filename\<close>; the argument \<open>None\<close> is Python's \<open>None\<close>.\<close>

definition format_name_for_filename :: "string option \<Rightarrow> string" where
  "format_name_for_filename name =
     (case name of
        None \<Rightarrow> ''unknown''
      | Some nm \<Rightarrow>
          if nm = [] then ''unknown''
          else
            let clean_name = clean_name_of nm;
                name_parts = split_ws clean_name
            in if length name_parts < 2 then clean_name
               else
                 let first_name = name_parts ! 0
                 in if length name_parts \<ge> 3
                       \<and> lower (name_parts ! 1) \<in> set [''sta.'', ''sto.'', ''sta'', ''sto'']
                    then (name_parts ! 1 @ '' '' @ join '' '' (drop 2 name_parts)) @ '', '' @ first_name
                    else last_name_of name_parts @ '', '' @ first_name)"

subsection \<open>The surname rules as the specification words them\<close>

text \<open>A token with its trailing period, if it has one, ignored.\<close>

definition strip_trailing_period :: "string \<Rightarrow> string" where
  "strip_trailing_period s = (if s \<noteq> [] \<and> last s = CHR ''.'' then butlast s else s)"

text \<open>Rule (a): at least three tokens, and the second one is \<open>sta\<close> or \<open>sto\<close>.\<close>

definition rule_a :: "string list \<Rightarrow> bool" where
  "rule_a parts =
     (length parts \<ge> 3 \<and> strip_trailing_period (lower (parts ! 1)) \<in> set [''sta'', ''sto''])"

text \<open>Rule (b): at least three tokens, and the second-to-last one is \<open>sta\<close> or \<open>sto\<close>.\<close>

definition rule_b :: "string list \<Rightarrow> bool" where
  "rule_b parts =
     (length parts \<ge> 3
      \<and> strip_trailing_period (lower (parts ! (length parts - 2))) \<in> set [''sta'', ''sto''])"

section \<open>The name extractor\<close>

text \<open>
  The variable \<open>name\<close> of the source holds \<open>None\<close> or a string; \<open>not name\<close> is true of
  \<open>None\<close> and of the empty string.
\<close>

definition falsy :: "string option \<Rightarrow> bool" where
  "falsy name = (name = None \<or> name = Some [])"

definition titles :: "string list" where
  "titles = [''Chief Operating'', ''Operations Manager'']"

text \<open>\<open>any(title in s for title in [..])\<close>.\<close>

definition has_title :: "string \<Rightarrow> bool" where
  "has_title s = list_ex (contains s) titles"

subsection \<open>Method 1: the name after the heading\<close>

text \<open>The class \<open>[A-Za-z\s\.\-]\<close>.\<close>

definition name_class :: "char \<Rightarrow> bool" where
  "name_class c = (is_alpha_ascii c \<or> is_space c \<or> c = CHR ''.'' \<or> c = CHR ''-'')"

text \<open>\<open>CERTIFICATE OF COMPLETION\s+([A-Za-z\s\.\-]+)(?=\s+This certificate)\<close>\<close>

definition anchor_pattern :: regex where
  "anchor_pattern =
     Seq (Lit ''CERTIFICATE OF COMPLETION'')
       (Seq (Rep is_space 1 None)
         (Seq (Grp 1 (Rep name_class 1 None))
           (Ahead (Seq (Rep is_space 1 None) (Lit ''This certificate'')))))"

text \<open>\<open>match.group(1)\<close> of the search for the pattern, when it matches.\<close>

definition anchor_capture :: "string \<Rightarrow> string option" where
  "anchor_capture text =
     (case re_search anchor_pattern text of None \<Rightarrow> None | Some m \<Rightarrow> m_groups m 1)"

text \<open>
  The name is the first group, trimmed, its whitespace collapsed, and trimmed again. The
  test for a job title that follows assigns the name to itself and has no other branch.
\<close>

definition method1 :: "string \<Rightarrow> string option" where
  "method1 text =
     (case anchor_capture text of
        None \<Rightarrow> None
      | Some g \<Rightarrow>
          let name = strip g;
              name = strip (collapse_ws name)
          in if \<not> has_title name then Some name else Some name)"

subsection \<open>Method 2: the lines between the heading and the sentence\<close>

text \<open>
  The loop over the lines, from line \<open>i\<close> on: \<open>certificate_index\<close> is set at every line
  that holds the heading, and the loop leaves at the first line that holds
  \<open>This certificate\<close>. The result is the pair of both indices, \<open>-1\<close> for one never set.
\<close>

fun find_markers :: "nat \<Rightarrow> string list \<Rightarrow> int \<Rightarrow> int \<times> int" where
  "find_markers i [] certificate_index = (certificate_index, - 1)"
| "find_markers i (line # lines) certificate_index =
     (let certificate_index' =
            (if contains line ''CERTIFICATE OF COMPLETION'' then int i else certificate_index)
      in if contains line ''This certificate'' then (certificate_index', int i)
         else find_markers (Suc i) lines certificate_index')"

text \<open>The loop over the lines between the markers: the first acceptable candidate.\<close>

fun first_candidate :: "string list \<Rightarrow> string option" where
  "first_candidate [] = None"
| "first_candidate (line # lines) =
     (let candidate = strip line
      in if candidate \<noteq> [] \<and> \<not> startswith candidate ''Chief''
            \<and> \<not> endswith candidate ''Officer'' \<and> \<not> contains candidate ''Manager''
         then Some candidate
         else first_candidate lines)"

text \<open>\<open>lines[lo:hi]\<close> for \<open>0 \<le> lo\<close>.\<close>

definition slice :: "nat \<Rightarrow> nat \<Rightarrow> 'a list \<Rightarrow> 'a list" where
  "slice lo hi xs = take (hi - lo) (drop lo xs)"

definition method2 :: "string \<Rightarrow> string option" where
  "method2 text =
     (let lines = split_on (CHR 0x0A) text;
          (certificate_index, this_certificate_index) = find_markers 0 lines (- 1)
      in if certificate_index \<noteq> - 1 \<and> this_certificate_index \<noteq> - 1
            \<and> certificate_index < this_certificate_index
         then first_candidate
                (slice (nat (certificate_index + 1)) (nat this_certificate_index) lines)
         else None)"

subsection \<open>Method 3: a name pattern away from job titles\<close>

definition one :: "(char \<Rightarrow> bool) \<Rightarrow> regex" where
  "one p = Rep p 1 (Some 1)"

definition plus :: "(char \<Rightarrow> bool) \<Rightarrow> regex" where
  "plus p = Rep p 1 None"

text \<open>\<open>[A-Z][a-z]+\<close>\<close>

definition capitalized :: regex where
  "capitalized = Seq (one is_upper_ascii) (plus is_lower_ascii)"

text \<open>\<open>([A-Z][a-z]+)\s+(Sta\.|Sto\.)\s+([A-Z][a-z]+)\<close>\<close>

definition sta_sto_pattern :: regex where
  "sta_sto_pattern =
     Seq (Grp 1 capitalized)
       (Seq (plus is_space)
         (Seq (Grp 2 (Alt (Lit ''Sta.'') (Lit ''Sto.'')))
           (Seq (plus is_space) (Grp 3 capitalized))))"

text \<open>\<open>([A-Z][a-z]+|[A-Z]{2,})\s+((?:[A-Za-z]\.?\s+)?(?:[a-z]{1,3}\s+)?[A-Z][a-z]+(?:\s+[A-Z][a-z]+)?)\<close>\<close>

definition regular_pattern :: regex where
  "regular_pattern =
     Seq (Grp 1 (Alt capitalized (Rep is_upper_ascii 2 None)))
       (Seq (plus is_space)
         (Grp 2
           (Seq (Opt (Seq (one is_alpha_ascii)
                       (Seq (Rep (\<lambda>c. c = CHR ''.'') 0 (Some 1)) (plus is_space))))
             (Seq (Opt (Seq (Rep is_lower_ascii 1 (Some 3)) (plus is_space)))
               (Seq capitalized
                 (Opt (Seq (plus is_space) capitalized)))))))"

text \<open>
  The inner loop over the matches of one pattern. The context of a match is the text from
  20 characters before it to 20 characters after it, cut at the ends of the text.
\<close>

fun scan_matches :: "string \<Rightarrow> rmatch list \<Rightarrow> string option" where
  "scan_matches text [] = None"
| "scan_matches text (m # ms) =
     (let candidate = strip (m_text m);
          context = slice (m_start m - 20) (min (length text) (m_end m + 20)) text
      in if has_title candidate then scan_matches text ms
         else if \<not> contains context ''Officer'' \<and> \<not> contains context ''Manager''
         then Some candidate
         else scan_matches text ms)"

text \<open>The outer loop over the patterns; it leaves once \<open>name\<close> is set and not empty.\<close>

fun method3_loop :: "string \<Rightarrow> regex list \<Rightarrow> string option \<Rightarrow> string option" where
  "method3_loop text [] name = name"
| "method3_loop text (pattern # patterns) name =
     (let name' = (case scan_matches text (re_finditer pattern text) of
                     Some candidate \<Rightarrow> Some candidate
                   | None \<Rightarrow> name)
      in if \<not> falsy name' then name' else method3_loop text patterns name')"

definition method3 :: "string \<Rightarrow> string option \<Rightarrow> string option" where
  "method3 text name = method3_loop text [sta_sto_pattern, regular_pattern] name"

subsection \<open>Method 4: the text after \<open>presented to\<close>\<close>

text \<open>\<open>presented to\s+(.*?)\s+for successfully\<close> under \<open>re.DOTALL\<close>\<close>

definition presented_pattern :: regex where
  "presented_pattern =
     Seq (Lit ''presented to'')
       (Seq (plus is_space)
         (Seq (Grp 1 (Lazy (\<lambda>c. True)))
           (Seq (plus is_space) (Lit ''for successfully''))))"

definition method4 :: "string \<Rightarrow> string option" where
  "method4 text =
     (case re_search presented_pattern text of
        None \<Rightarrow> None
      | Some m \<Rightarrow> (case m_groups m 1 of None \<Rightarrow> None | Some g \<Rightarrow> Some (strip g)))"

subsection \<open>The extractor\<close>

text \<open>A later method runs only while \<open>name\<close> is \<open>None\<close> or empty, and leaves \<open>name\<close> as it
  is when it finds nothing.\<close>

definition or_keep :: "string option \<Rightarrow> string option \<Rightarrow> string option" where
  "or_keep found name = (case found of Some c \<Rightarrow> Some c | None \<Rightarrow> name)"

definition extract_name_from_text :: "string \<Rightarrow> string option" where
  "extract_name_from_text raw =
     (let text = filter (\<lambda>c. c \<noteq> CHR 0x00) raw
      in if text = [] then None
         else
           let name = method1 text;
               name = (if falsy name then or_keep (method2 text) name else name);
               name = (if falsy name then method3 text name else name);
               name = (if falsy name then or_keep (method4 text) name else name)
           in case name of
                None \<Rightarrow> None
              | Some n \<Rightarrow> if n = [] then Some n else Some (strip_boilerplate n))"

subsection \<open>The first strategy as the specification words it\<close>



subsection \<open>The second strategy as the specification words it\<close>

text \<open>The index of the first element that satisfies \<open>P\<close>, from index \<open>i\<close> on.\<close>

fun first_index_from :: "nat \<Rightarrow> ('a \<Rightarrow> bool) \<Rightarrow> 'a list \<Rightarrow> nat option" where
  "first_index_from i P [] = None"
| "first_index_from i P (x # xs) = (if P x then Some i else first_index_from (Suc i) P xs)"

text \<open>The index of the last element that satisfies \<open>P\<close>.\<close>

fun last_index_from :: "nat \<Rightarrow> ('a \<Rightarrow> bool) \<Rightarrow> 'a list \<Rightarrow> nat option" where
  "last_index_from i P [] = None"
| "last_index_from i P (x # xs) =
     (case last_index_from (Suc i) P xs of
        Some j \<Rightarrow> Some j
      | None \<Rightarrow> if P x then Some i else None)"

definition acceptable :: "string \<Rightarrow> bool" where
  "acceptable candidate =
     (candidate \<noteq> [] \<and> \<not> startswith candidate ''Chief''
      \<and> \<not> endswith candidate ''Officer'' \<and> \<not> contains candidate ''Manager'')"

text \<open>
  The claim as stated: the line of the heading, the first line after it that holds
  \<open>This certificate\<close>, and the first acceptable line strictly between the two.
\<close>

definition method2_as_stated :: "string \<Rightarrow> string option" where
  "method2_as_stated text =
     (let lines = split_on (CHR 0x0A) text
      in case first_index_from 0 (\<lambda>l. contains l ''CERTIFICATE OF COMPLETION'') lines of
           None \<Rightarrow> None
         | Some c \<Rightarrow>
             (case first_index_from (Suc c) (\<lambda>l. contains l ''This certificate'')
                     (drop (Suc c) lines) of
                None \<Rightarrow> None
              | Some t \<Rightarrow> List.find acceptable (slice (Suc c) t lines)))"

text \<open>
  The claim as amended: the first line that holds \<open>This certificate\<close>, the last line up to
  and including it that holds the heading, and, when the heading's line comes strictly
  first, the first line strictly between the two that is acceptable once trimmed.
\<close>

definition method2_amended :: "string \<Rightarrow> string option" where
  "method2_amended text =
     (let lines = split_on (CHR 0x0A) text
      in case first_index_from 0 (\<lambda>l. contains l ''This certificate'') lines of
           None \<Rightarrow> None
         | Some t \<Rightarrow>
             (case last_index_from 0 (\<lambda>l. contains l ''CERTIFICATE OF COMPLETION'')
                     (take (Suc t) lines) of
                None \<Rightarrow> None
              | Some c \<Rightarrow>
                  if c < t then List.find acceptable (map strip (slice (Suc c) t lines))
                  else None))"

section \<open>The page loop\<close>

text \<open>\<open>str(n)\<close> for a natural number, and \<open>s.zfill(w)\<close> for a string without a sign.\<close>

fun str_nat :: "nat \<Rightarrow> string" where
  "str_nat n = (if n < 10 then [digits ! n] else str_nat (n div 10) @ [digits ! (n mod 10)])"

declare str_nat.simps [simp del]

definition zfill :: "nat \<Rightarrow> string \<Rightarrow> string" where
  "zfill w s = replicate (w - length s) (CHR ''0'') @ s"

text \<open>
  The body of the loop of \<open>split_pdf_with_names\<close> for page \<open>i\<close> (counted from 0) with
  extracted text \<open>text\<close>: the name of the page, from which a remaining \<open>This\<close> is removed, and
  the file name built from it.
\<close>

definition page_name :: "string \<Rightarrow> string option" where
  "page_name text =
     (let name = extract_name_from_text text
      in case name of
           None \<Rightarrow> None
         | Some n \<Rightarrow>
             if n \<noteq> [] \<and> contains n ''This'' then Some (strip (re_sub (Lit ''This'') [] n))
             else Some n)"

definition output_filename :: "nat \<Rightarrow> string \<Rightarrow> string" where
  "output_filename i text =
     (let name = page_name text;
          page_num = zfill 3 (str_nat (i + 1))
      in if \<not> falsy name then page_num @ '' '' @ format_name_for_filename name @ ''.pdf''
         else page_num @ '' unknown.pdf'')"

text \<open>The loop itself: the pages from number \<open>i\<close> on, and the list \<open>output_files\<close> so far.\<close>

fun process_pages :: "nat \<Rightarrow> string list \<Rightarrow> string list \<Rightarrow> string list" where
  "process_pages i [] output_files = output_files"
| "process_pages i (text # texts) output_files =
     process_pages (Suc i) texts (output_files @ [output_filename i text])"

text \<open>
  The file name that the page loop gives to page number \<open>n\<close> (counted from 1) whose name
  is \<open>name\<close>; a page without a name gets \<open>unknown\<close>, which is also what the formatter makes
  of \<open>None\<close>.
\<close>

definition page_file :: "nat \<Rightarrow> string option \<Rightarrow> string" where
  "page_file n name = zfill 3 (str_nat n) @ '' '' @ format_name_for_filename name @ ''.pdf''"

section \<open>Grouping into folders\<close>

text \<open>\<open>\d+\s+(.*?)\.pdf$\<close>\<close>

definition numbered_pattern :: regex where
  "numbered_pattern =
     Seq (plus is_digit)
       (Seq (plus is_space)
         (Seq (Grp 1 (Lazy (\<lambda>c. c \<noteq> CHR 0x0A)))
           (Seq (Lit ''.pdf'') Eol)))"

text \<open>
  A path below the directory \<open>organized\<close> is a folder name and a file name. The state of
  the grouping loop: the set \<open>created_folders\<close>, the list \<open>organized_files\<close>, and the files
  of the directory, each with the page file it was copied from. A copy onto an existing
  path replaces the file there.
\<close>

type_synonym path = "string \<times> string"

record grouping =
  created_folders :: "string set"
  organized_files :: "path list"
  folder_files :: "(path \<times> string) list"

definition copy2 :: "string \<Rightarrow> path \<Rightarrow> (path \<times> string) list \<Rightarrow> (path \<times> string) list" where
  "copy2 source dest fs = filter (\<lambda>(p, src). p \<noteq> dest) fs @ [(dest, source)]"

text \<open>The body of the loop for one entry of the listing of the pages directory.\<close>

definition group_file :: "string \<Rightarrow> grouping \<Rightarrow> grouping" where
  "group_file pdf_file st =
     (if endswith (lower pdf_file) ''.pdf'' then
        (case re_match numbered_pattern pdf_file of
           None \<Rightarrow> st
         | Some m \<Rightarrow>
             (case m_groups m 1 of
                None \<Rightarrow> st
              | Some g \<Rightarrow>
                  let formatted_name = strip g
                  in if lower formatted_name = ''unknown'' then st
                     else
                       let folder_name = formatted_name;
                           new_filename = formatted_name @ ''.pdf'';
                           dest_file = (folder_name, new_filename)
                       in \<lparr>created_folders = insert folder_name (created_folders st),
                           organized_files = organized_files st @ [dest_file],
                           folder_files = copy2 pdf_file dest_file (folder_files st)\<rparr>))
      else st)"

fun group_files :: "string list \<Rightarrow> grouping \<Rightarrow> grouping" where
  "group_files [] st = st"
| "group_files (pdf_file # listing) st = group_files listing (group_file pdf_file st)"

definition organize :: "string list \<Rightarrow> grouping" where
  "organize listing =
     group_files listing \<lparr>created_folders = {}, organized_files = [], folder_files = []\<rparr>"

text \<open>The files of one folder.\<close>

definition files_in :: "string \<Rightarrow> grouping \<Rightarrow> string list" where
  "files_in folder st = map (snd \<circ> fst) (filter (\<lambda>(p, src). fst p = folder) (folder_files st))"

section \<open>Properties of the formatter\<close>

lemma sub_from_subset: "set (sub_from r repl bef s) \<subseteq> set s \<union> set repl"
proof (induction r repl bef s rule: sub_from.induct)
  case (1 r repl bef)
  then show ?case by (cases "match_at r bef []") auto
next
  case (2 r repl bef c cs)
  show ?case
  proof (cases "match_at r bef (c # cs)")
    case None
    with 2(1) show ?thesis by auto
  next
    case (Some m)
    show ?thesis
    proof (cases "m_text m = []")
      case True
      with Some 2(2) show ?thesis by auto
    next
      case False
      have "set (drop (length (m_text m)) (c # cs)) \<subseteq> set (c # cs)"
        by (rule set_drop_subset)
      with Some False 2(3) show ?thesis by auto
    qed
  qed
qed

lemma re_sub_subset: "set (re_sub r repl s) \<subseteq> set s \<union> set repl"
  unfolding re_sub_def by (rule sub_from_subset)

lemma strip_subset: "set (strip s) \<subseteq> set s"
proof -
  have "set (rev (dropWhile is_space (rev (lstrip s)))) \<subseteq> set (lstrip s)"
    using set_dropWhileD [of _ is_space "rev (lstrip s)"] by auto
  moreover have "set (lstrip s) \<subseteq> set s"
    unfolding lstrip_def using set_dropWhileD by fastforce
  ultimately show ?thesis unfolding strip_def rstrip_def by blast
qed

lemma strip_boilerplate_subset: "set (strip_boilerplate s) \<subseteq> set s \<union> {CHR '' ''}"
proof -
  let ?s1 = "re_sub (LitI ''COMPLETION'') [] s"
  let ?s2 = "re_sub (LitI ''CERTIFICATE'') [] ?s1"
  let ?s3 = "re_sub (Seq WordB (Seq (Lit ''This'') WordB)) [] ?s2"
  have 1: "set ?s1 \<subseteq> set s" using re_sub_subset [of "LitI ''COMPLETION''" "[]" s] by simp
  have 2: "set ?s2 \<subseteq> set ?s1" using re_sub_subset [of _ "[]" ?s1] by simp
  have 3: "set ?s3 \<subseteq> set ?s2" using re_sub_subset [of _ "[]" ?s2] by simp
  have 4: "set (collapse_ws ?s3) \<subseteq> set ?s3 \<union> {CHR '' ''}"
    unfolding collapse_ws_def using re_sub_subset [of _ "'' ''" ?s3] by simp
  have 5: "set (strip (collapse_ws ?s3)) \<subseteq> set (collapse_ws ?s3)" by (rule strip_subset)
  have "strip_boilerplate s = strip (collapse_ws ?s3)" by (simp add: strip_boilerplate_def Let_def)
  then have "set (strip_boilerplate s) \<subseteq> set (collapse_ws ?s3)" using 5 by simp
  also have "\<dots> \<subseteq> set ?s3 \<union> {CHR '' ''}" by (rule 4)
  also have "\<dots> \<subseteq> set s \<union> {CHR '' ''}" using 1 2 3 by blast
  finally show ?thesis .
qed

lemma sub_class_filter:
  "sub_from (Rep p (Suc 0) (Some (Suc 0))) [] bef s = filter (\<lambda>c. \<not> p c) s"
proof (induction s arbitrary: bef)
  case Nil
  show ?case by (simp add: match_at_def)
next
  case (Cons c cs)
  show ?case
  proof (cases "p c")
    case True
    then have "match_at (Rep p (Suc 0) (Some (Suc 0))) bef (c # cs)
      = Some \<lparr>m_start = length bef, m_text = [c], m_groups = Map.empty\<rparr>"
      by (simp add: match_at_def advance_def)
    with True Cons show ?thesis by simp
  next
    case False
    then have "match_at (Rep p (Suc 0) (Some (Suc 0))) bef (c # cs) = None"
      by (simp add: match_at_def)
    with False Cons show ?thesis by simp
  qed
qed

lemma remove_problematic:
  "re_sub (Rep is_problematic 1 (Some 1)) [] name = filter (\<lambda>c. c \<notin> problematic) name"
  using sub_class_filter [of is_problematic "[]" name]
  by (simp add: re_sub_def is_problematic_def)

lemma space_not_problematic: "CHR '' '' \<notin> problematic"
  by (simp add: problematic_def)

lemma clean_name_safe: "set (clean_name_of name) \<inter> problematic = {}"
proof -
  have "set (clean_name_of name) \<subseteq> set (filter (\<lambda>c. c \<notin> problematic) name) \<union> {CHR '' ''}"
    unfolding clean_name_of_def remove_problematic by (rule strip_boilerplate_subset)
  with space_not_problematic show ?thesis by auto
qed

lemma split_acc_subset: "t \<in> set (split_acc cur s) \<Longrightarrow> set t \<subseteq> set cur \<union> set s"
proof (induction s arbitrary: cur)
  case Nil
  then show ?case by (simp split: if_splits)
next
  case (Cons c cs)
  then show ?case by (fastforce split: if_splits)
qed

lemma split_ws_subset: "t \<in> set (split_ws s) \<Longrightarrow> set t \<subseteq> set s"
  unfolding split_ws_def using split_acc_subset [of t "[]" s] by simp

lemma join_subset: "set (join sep ps) \<subseteq> set sep \<union> \<Union> (set ` set ps)"
  by (induction sep ps rule: join.induct) auto

lemma clean_name_of_empty: "clean_name_of [] = []"
  by code_simp

lemma sta_sto_iff:
  "strip_trailing_period s \<in> set [''sta'', ''sto'']
     \<longleftrightarrow> s \<in> set [''sta.'', ''sto.'', ''sta'', ''sto'']"
proof (cases "s \<noteq> [] \<and> last s = CHR ''.''")
  case True
  then have s: "s = butlast s @ ''.''"
    using append_butlast_last_id [of s] by simp
  have "strip_trailing_period s = butlast s"
    using True by (simp add: strip_trailing_period_def)
  moreover have "butlast s = ''sta'' \<longleftrightarrow> s = ''sta.''"
    using s by (metis append_Cons append_Nil butlast_snoc)
  moreover have "butlast s = ''sto'' \<longleftrightarrow> s = ''sto.''"
    using s by (metis append_Cons append_Nil butlast_snoc)
  moreover have "s \<noteq> ''sta''" "s \<noteq> ''sto''"
    using True by auto
  ultimately show ?thesis by auto
next
  case False
  then have "strip_trailing_period s = s"
    by (auto simp: strip_trailing_period_def)
  moreover have "s \<noteq> ''sta.''" "s \<noteq> ''sto.''"
    using False by auto
  ultimately show ?thesis by auto
qed

lemma format_three_parts:
  assumes "3 \<le> length (split_ws (clean_name_of nm))"
  shows "format_name_for_filename (Some nm) =
    (let name_parts = split_ws (clean_name_of nm) in
     if lower (name_parts ! 1) \<in> set [''sta.'', ''sto.'', ''sta'', ''sto'']
     then (name_parts ! 1 @ '' '' @ join '' '' (drop 2 name_parts)) @ '', '' @ name_parts ! 0
     else last_name_of name_parts @ '', '' @ name_parts ! 0)"
proof -
  have "nm \<noteq> []"
    using assms clean_name_of_empty by (auto simp: split_ws_def)
  then show ?thesis
    using assms by (simp add: format_name_for_filename_def Let_def)
qed



text \<open>
  Claim C6. When the cleaned name has at least three tokens, rules (a) and (b) do not
  apply, and the second-to-last token, lower-cased, is in the Name Prefix Set, the surname
  is the last two tokens joined by a space and the result is the surname, a comma and a
  space, and the first token.
\<close>

theorem prefix_second_to_last:
  assumes "parts = split_ws (clean_name_of nm)" and "3 \<le> length parts"
    and "\<not> rule_a parts" and "\<not> rule_b parts"
    and "lower (parts ! (length parts - 2)) \<in> set name_prefixes"
  shows "format_name_for_filename (Some nm)
         = (parts ! (length parts - 2) @ '' '' @ parts ! (length parts - 1)) @ '', '' @ parts ! 0"
proof -
  from assms have len: "3 \<le> length (split_ws (clean_name_of nm))"
    by simp
  from assms(2,3) have "lower (parts ! 1) \<notin> set [''sta.'', ''sto.'', ''sta'', ''sto'']"
    unfolding rule_a_def sta_sto_iff by blast
  then have "format_name_for_filename (Some nm) = last_name_of parts @ '', '' @ parts ! 0"
    using format_three_parts [OF len] assms(1) by (simp add: Let_def)
  moreover have "last_name_of parts = parts ! (length parts - 2) @ '' '' @ parts ! (length parts - 1)"
    using assms(2,5) by (simp add: last_name_of_def Let_def)
  ultimately show ?thesis by simp
qed

text \<open>The rule at \<open>Juan Dela Cruz\<close>, which gives \<open>Dela Cruz, Juan\<close>.\<close>

theorem prefix_second_to_last_witness:
  "3 \<le> length (split_ws (clean_name_of ''Juan Dela Cruz''))
   \<and> \<not> rule_a (split_ws (clean_name_of ''Juan Dela Cruz''))
   \<and> \<not> rule_b (split_ws (clean_name_of ''Juan Dela Cruz''))
   \<and> lower (split_ws (clean_name_of ''Juan Dela Cruz'') ! 1) \<in> set name_prefixes
   \<and> format_name_for_filename (Some ''Juan Dela Cruz'') = ''Dela Cruz, Juan''"
proof -
  have p: "split_ws (clean_name_of ''Juan Dela Cruz'') = [''Juan'', ''Dela'', ''Cruz'']"
    by code_simp
  have l: "3 \<le> length [''Juan'', ''Dela'', ''Cruz'']" by simp
  have a: "\<not> rule_a [''Juan'', ''Dela'', ''Cruz'']" by code_simp
  have b: "\<not> rule_b [''Juan'', ''Dela'', ''Cruz'']" by code_simp
  have c: "lower ([''Juan'', ''Dela'', ''Cruz''] ! (length [''Juan'', ''Dela'', ''Cruz''] - 2)) \<in> set name_prefixes"
    by code_simp
  from prefix_second_to_last [OF p [symmetric] l a b c] p a b c show ?thesis
    by simp
qed

text \<open>
  The branch for two prefixes asks again for what the branch before it has already
  taken, so the surname is never made of three tokens.
\<close>

lemma double_prefix_branch_unreachable:
  "last_name_of name_parts =
     (let n = length name_parts
      in if n \<ge> 3 \<and> (remove_periods (lower (name_parts ! (n - 2))) \<in> set [''sta'', ''sto'']
                      \<or> lower (name_parts ! (n - 2)) \<in> set name_prefixes)
         then name_parts ! (n - 2) @ '' '' @ name_parts ! (n - 1)
         else name_parts ! (n - 1))"
  by (simp add: last_name_of_def Let_def)

text \<open>
  Claim C1. The claim expects \<open>van der Wal, John\<close> for \<open>John van der Wal\<close>, as does the
  comment of the source (\<open>Case 2\<close>). The branch for a single prefix comes first in the
  \<open>elif\<close> chain and takes every name whose second-to-last token is a prefix, so the branch
  for two prefixes is never reached: the formatter returns \<open>der Wal, John\<close>.
\<close>

theorem format_van_der_Wal:
  "format_name_for_filename (Some ''John van der Wal'') = ''der Wal, John''"
  by code_simp

text \<open>The guard at the head of the formatter: no name, or an empty one, gives \<open>unknown\<close>.\<close>

lemma format_unknown_guard:
  "format_name_for_filename None = ''unknown'' \<and> format_name_for_filename (Some []) = ''unknown''"
  by (simp add: format_name_for_filename_def)

text \<open>
  A page whose name is a lone question mark: the fourth strategy extracts it, the
  formatter deletes it, and the page loop writes a file without a name.
\<close>

lemma page_without_name:
  "extract_name_from_text ''presented to ? for successfully'' = Some ''?''
   \<and> output_filename 2 ''presented to ? for successfully'' = ''003 .pdf''"
  by code_simp

text \<open>
  Claim C2. The claim expects \<open>unknown\<close> whenever the name is empty after the boilerplate
  pass, as the guard gives for a name that is empty from the start and as the page loop
  gives for a page without a name. The guard is passed before the pass is made, and the
  case of a name that the pass empties is not handled afterwards: for \<open>COMPLETION\<close>, which
  cleans to the empty string, the formatter returns the empty string.
\<close>

theorem format_completion_empty:
  "clean_name_of ''COMPLETION'' = []
   \<and> format_name_for_filename (Some ''COMPLETION'') = []
   \<and> format_name_for_filename (Some []) = ''unknown''"
  by code_simp

lemma last_name_of_subset:
  assumes "2 \<le> length parts"
  shows "set (last_name_of parts) \<subseteq> \<Union> (set ` set parts) \<union> {CHR '' ''}"
proof -
  have "\<And>k. k < length parts \<Longrightarrow> set (parts ! k) \<subseteq> \<Union> (set ` set parts)"
    using nth_mem by blast
  then have "set (parts ! (length parts - 1)) \<subseteq> \<Union> (set ` set parts)"
    "set (parts ! (length parts - 2)) \<subseteq> \<Union> (set ` set parts)"
    "set (parts ! (length parts - 3)) \<subseteq> \<Union> (set ` set parts)"
    using assms by simp_all
  then show ?thesis
    unfolding last_name_of_def Let_def by (auto split: if_splits)
qed

lemma format_chars_safe:
  "set (format_name_for_filename name) \<inter> problematic = {}"
proof (cases name)
  case None
  then show ?thesis by (simp add: format_name_for_filename_def problematic_def)
next
  case (Some nm)
  let ?parts = "split_ws (clean_name_of nm)"
  have unk: "set ''unknown'' \<inter> problematic = {}" by (simp add: problematic_def)
  have comma: "CHR '','' \<notin> problematic" by (simp add: problematic_def)
  have toks: "\<Union> (set ` set ?parts) \<inter> problematic = {}"
    using split_ws_subset [of _ "clean_name_of nm"] clean_name_safe [of nm] by blast
  show ?thesis
  proof (cases "nm = [] \<or> length ?parts < 2")
    case True
    then show ?thesis
      using Some unk clean_name_safe [of nm]
      by (auto simp: format_name_for_filename_def Let_def)
  next
    case False
    then have len: "2 \<le> length ?parts" by simp
    have l0: "0 < length ?parts" and l1: "1 < length ?parts"
      using len by linarith+
    have "?parts ! 0 \<in> set ?parts" "?parts ! 1 \<in> set ?parts"
      using nth_mem [OF l0] nth_mem [OF l1] by blast+
    then have first: "set (?parts ! 0) \<subseteq> \<Union> (set ` set ?parts)"
      and second: "set (?parts ! 1) \<subseteq> \<Union> (set ` set ?parts)"
      by blast+
    have rest: "set (join '' '' (drop 2 ?parts)) \<subseteq> \<Union> (set ` set ?parts) \<union> {CHR '' ''}"
      using join_subset [of "'' ''" "drop 2 ?parts"] set_drop_subset [of 2 ?parts] by auto
    have last: "set (last_name_of ?parts) \<subseteq> \<Union> (set ` set ?parts) \<union> {CHR '' ''}"
      by (rule last_name_of_subset [OF len])
    have "set (format_name_for_filename name)
            \<subseteq> \<Union> (set ` set ?parts) \<union> {CHR '' '', CHR '',''}"
      using False Some first second rest last
      by (auto simp: format_name_for_filename_def Let_def)
    with toks comma space_not_problematic show ?thesis by blast
  qed
qed

text \<open>
  Claim C10. Whatever the input, the formatted name holds none of the characters
  backslash, slash, colon, asterisk, question mark, double quote, less-than, greater-than,
  vertical bar, newline, carriage return and tab. The first pass deletes exactly these
  (\<open>remove_problematic\<close>), and every branch builds its result from what is left, spaces
  and a comma.
\<close>

theorem format_output_safe:
  "set (format_name_for_filename name) \<inter> problematic = {}"
  by (rule format_chars_safe)

text \<open>The formatter on a name with a slash, a colon and angle brackets.\<close>

theorem format_output_safe_witness:
  "set (format_name_for_filename (Some ''Ana/Maria: de la <Cruz>'')) \<inter> problematic = {}
   \<and> format_name_for_filename (Some ''Ana/Maria: de la <Cruz>'') = ''la Cruz, AnaMaria''"
proof -
  have "format_name_for_filename (Some ''Ana/Maria: de la <Cruz>'') = ''la Cruz, AnaMaria''"
    by code_simp
  with format_output_safe [of "Some ''Ana/Maria: de la <Cruz>''"] show ?thesis by simp
qed

section \<open>Properties of the extractor\<close>

lemma anchor_capture_empty: "anchor_capture [] = None"
  by code_simp

lemma method1_capture:
  "anchor_capture text = Some g \<Longrightarrow> method1 text = Some (strip (collapse_ws (strip g)))"
  by (simp add: method1_def Let_def)

lemma has_title_nonempty: "has_title name \<Longrightarrow> name \<noteq> []"
  by (auto simp: has_title_def titles_def)

text \<open>
  Claim C4. Where the pattern of the first strategy matches, the strategy yields the
  captured name, trimmed and with its whitespace collapsed, whether or not the name holds a
  job title; when that name holds a job title, or is not empty for any other reason, no
  later strategy runs and the extractor returns it after the boilerplate pass.
\<close>

theorem title_rejection_not_enforced:
  assumes "text = filter (\<lambda>c. c \<noteq> CHR 0x00) raw"
    and "anchor_capture text = Some g"
    and "name = strip (collapse_ws (strip g))"
    and "has_title name \<or> name \<noteq> []"
  shows "method1 text = Some name \<and> extract_name_from_text raw = Some (strip_boilerplate name)"
proof -
  have ne: "name \<noteq> []"
    using assms(4) has_title_nonempty by blast
  have m1: "method1 text = Some name"
    using assms(2,3) by (simp add: method1_capture)
  have "text \<noteq> []"
    using assms(2) anchor_capture_empty by auto
  moreover have "\<not> falsy (method1 text)"
    using m1 ne by (simp add: falsy_def)
  ultimately have "extract_name_from_text raw = Some (strip_boilerplate name)"
    using m1 assms(1) ne by (simp add: extract_name_from_text_def Let_def)
  with m1 show ?thesis by simp
qed

text \<open>A page whose captured name is a job title: the title is the extracted name.\<close>

theorem title_rejection_not_enforced_witness:
  "anchor_capture ''CERTIFICATE OF COMPLETION Chief Operating Officer This certificate is''
     = Some ''Chief Operating Officer''
   \<and> has_title ''Chief Operating Officer''
   \<and> extract_name_from_text ''CERTIFICATE OF COMPLETION Chief Operating Officer This certificate is''
     = Some ''Chief Operating Officer''"
proof -
  let ?raw = "''CERTIFICATE OF COMPLETION Chief Operating Officer This certificate is''"
  have t: "?raw = filter (\<lambda>c. c \<noteq> CHR 0x00) ?raw" by simp
  have c: "anchor_capture ?raw = Some ''Chief Operating Officer''" by code_simp
  have n: "''Chief Operating Officer'' = strip (collapse_ws (strip ''Chief Operating Officer''))"
    by code_simp
  have h: "has_title ''Chief Operating Officer''" by code_simp
  then have e: "has_title ''Chief Operating Officer'' \<or> ''Chief Operating Officer'' \<noteq> []" ..
  have b: "strip_boilerplate ''Chief Operating Officer'' = ''Chief Operating Officer''"
    by code_simp
  from title_rejection_not_enforced [OF t c n e] c h b show ?thesis by simp
qed

subsection \<open>The first strategy\<close>

lemma startswith_append: "startswith (p @ s) p"
  by (induction p) simp_all

lemma startswith_drop: "startswith s p \<Longrightarrow> drop (length p) s = s' \<Longrightarrow> s = p @ s'"
  by (induction s p arbitrary: s' rule: startswith.induct) auto


lemma concat_map_empty: "(\<And>x. x \<in> set xs \<Longrightarrow> F x = []) \<Longrightarrow> concat (map F xs) = []"
  by (induction xs) simp_all

lemma concat_rev_upt_first:
  assumes "lo \<le> k" and "k \<le> m" and "\<And>n. k < n \<Longrightarrow> n \<le> m \<Longrightarrow> F n = []"
  shows "concat (map F (rev [lo..<Suc m])) = F k @ concat (map F (rev [lo..<k]))"
proof -
  have "[lo..<k + (Suc m - k)] = [lo..<k] @ [k..<k + (Suc m - k)]"
    using assms(1) by (rule upt_add_eq_append)
  moreover have "k + (Suc m - k) = Suc m"
    using assms(2) by simp
  moreover have "[k..<Suc m] = k # [Suc k..<Suc m]"
    using assms(2) by (simp add: upt_conv_Cons)
  ultimately have "[lo..<Suc m] = [lo..<k] @ [k] @ [Suc k..<Suc m]"
    by simp
  moreover have "concat (map F (rev [Suc k..<Suc m])) = []"
    using assms(3) by (intro concat_map_empty) auto
  ultimately show ?thesis by simp
qed



lemma takeWhile_run:
  assumes "list_all p xs" and "ys = [] \<or> \<not> p (hd ys)"
  shows "takeWhile p (xs @ ys) = xs"
proof -
  have "takeWhile p ys = []" using assms(2) by (cases ys) auto
  with assms(1) show ?thesis by (simp add: list_all_iff)
qed

text \<open>The lookahead \<open>(?=\s+This certificate)\<close> holds at a position exactly when a run of
  whitespace from there leads to the sentence.\<close>

lemma paths_seq_rep:
  "paths (Seq (Rep p lo None) r) (bef, s, g)
   = concat (map (\<lambda>n. paths r (advance n (bef, s, g))) (rev [lo..<Suc (length (takeWhile p s))]))"
  by (simp add: Let_def comp_def)













lemma advance_simp: "advance n (b, s, g) = (rev (take n s) @ b, drop n s, g)"
  by (simp add: advance_def)






lemma strip_name:
  assumes "name \<noteq> []" and "\<not> is_space (hd name)" and "\<not> is_space (last name)"
    and "list_all is_space w"
  shows "strip (name @ w) = name"
proof -
  have l: "lstrip (name @ w) = name @ w"
    using assms(1,2) by (cases name) (simp_all add: lstrip_def)
  have "dropWhile is_space (rev w @ rev name) = dropWhile is_space (rev name)"
    using assms(4) by (intro dropWhile_append2) (simp add: list_all_iff)
  moreover have "dropWhile is_space (rev name) = rev name"
    using assms(1,3) by (cases name rule: rev_cases) simp_all
  ultimately show ?thesis
    by (simp add: strip_def rstrip_def l)
qed




subsection \<open>The second strategy\<close>

lemma first_index_from_ge: "first_index_from i P xs = Some t \<Longrightarrow> i \<le> t"
  by (induction xs arbitrary: i) (auto split: if_splits dest: Suc_leD)

lemma find_markers_none:
  "first_index_from i (\<lambda>l. contains l ''This certificate'') lines = None
   \<Longrightarrow> snd (find_markers i lines cert) = - 1"
  by (induction lines arbitrary: i cert) (auto simp: Let_def split: if_splits)

lemma find_markers_some:
  "first_index_from i (\<lambda>l. contains l ''This certificate'') lines = Some t
   \<Longrightarrow> find_markers i lines cert =
       ((case last_index_from i (\<lambda>l. contains l ''CERTIFICATE OF COMPLETION'')
                (take (Suc (t - i)) lines) of
           Some c \<Rightarrow> int c
         | None \<Rightarrow> cert), int t)"
proof (induction lines arbitrary: i cert)
  case Nil
  then show ?case by simp
next
  case (Cons line lines)
  show ?case
  proof (cases "contains line ''This certificate''")
    case True
    with Cons.prems have "t = i" by simp
    with True show ?thesis by (simp add: Let_def)
  next
    case False
    with Cons.prems have f: "first_index_from (Suc i) (\<lambda>l. contains l ''This certificate'') lines = Some t"
      by simp
    then have "Suc i \<le> t" by (rule first_index_from_ge)
    then have tk: "Suc (t - i) = Suc (Suc (t - Suc i))" by simp
    show ?thesis
      using False Cons.IH [OF f] unfolding tk
      by (simp add: Let_def split: option.splits)
  qed
qed

lemma first_candidate_find:
  "first_candidate lines = List.find acceptable (map strip lines)"
  by (induction lines) (simp_all add: Let_def acceptable_def)

lemma method2_refines: "method2 text = method2_amended text"
proof -
  let ?lines = "split_on (CHR 0x0A) text"
  show ?thesis
  proof (cases "first_index_from 0 (\<lambda>l. contains l ''This certificate'') ?lines")
    case None
    then have "snd (find_markers 0 ?lines (- 1)) = - 1" by (rule find_markers_none)
    then obtain c where "find_markers 0 ?lines (- 1) = (c, - 1)"
      by (cases "find_markers 0 ?lines (- 1)") simp
    with None show ?thesis
      by (simp add: method2_def method2_amended_def Let_def)
  next
    case (Some t)
    note fm = find_markers_some [OF Some, of "- 1"]
    show ?thesis
    proof (cases "last_index_from 0 (\<lambda>l. contains l ''CERTIFICATE OF COMPLETION'') (take (Suc t) ?lines)")
      case None
      with Some fm show ?thesis
        by (simp add: method2_def method2_amended_def Let_def)
    next
      case (Some c)
      have "nat (int c + 1) = Suc c" by simp
      with Some \<open>first_index_from 0 _ ?lines = Some t\<close> fm show ?thesis
        by (simp add: method2_def method2_amended_def Let_def first_candidate_find)
    qed
  qed
qed

lemma first_candidate_nonempty: "first_candidate lines = Some c \<Longrightarrow> c \<noteq> []"
  by (induction lines) (auto simp: Let_def split: if_splits)

lemma method2_nonempty: "method2 text = Some c \<Longrightarrow> c \<noteq> []"
  by (auto simp: method2_def Let_def split: prod.splits if_splits dest: first_candidate_nonempty)

lemma method2_empty: "method2 [] = None"
  by code_simp

text \<open>
  Claim C7, as stated, fails. In the text below the first strategy finds nothing, the
  heading is on the second line, the first later line with \<open>This certificate\<close> is the fourth,
  and the line between them is acceptable; but the loop of the second strategy stops at
  the first line, which holds \<open>This certificate\<close>, before it has seen the heading.
\<close>

theorem second_strategy_counterexample:
  "method1 (''This certificate'' @ [CHR 0x0A] @ ''CERTIFICATE OF COMPLETION'' @ [CHR 0x0A]
            @ ''John3'' @ [CHR 0x0A] @ ''This certificate is'') = None
   \<and> method2_as_stated (''This certificate'' @ [CHR 0x0A] @ ''CERTIFICATE OF COMPLETION'' @ [CHR 0x0A]
            @ ''John3'' @ [CHR 0x0A] @ ''This certificate is'') = Some ''John3''
   \<and> method2 (''This certificate'' @ [CHR 0x0A] @ ''CERTIFICATE OF COMPLETION'' @ [CHR 0x0A]
            @ ''John3'' @ [CHR 0x0A] @ ''This certificate is'') = None"
  by code_simp

text \<open>
  Claim C7, amended. The second strategy splits the text into lines and takes the first
  line that holds \<open>This certificate\<close> and the last line, up to and including that one, that
  holds \<open>CERTIFICATE OF COMPLETION\<close>. If both exist and the heading's line comes strictly
  first, it yields the first line strictly between them that, trimmed, is not empty, does
  not start with \<open>Chief\<close>, does not end with \<open>Officer\<close> and does not hold \<open>Manager\<close>, and it
  yields that line trimmed; otherwise it yields nothing. When the first strategy has
  failed and the second yields a line, the extractor returns that line after the
  boilerplate pass.
\<close>

theorem second_strategy_amended:
  "method2 text = method2_amended text
   \<and> (text = filter (\<lambda>c. c \<noteq> CHR 0x00) raw \<longrightarrow> falsy (method1 text) \<longrightarrow> method2 text = Some c
        \<longrightarrow> extract_name_from_text raw = Some (strip_boilerplate c))"
proof -
  have "extract_name_from_text raw = Some (strip_boilerplate c)"
    if t: "text = filter (\<lambda>c. c \<noteq> CHR 0x00) raw" and f: "falsy (method1 text)"
      and m: "method2 text = Some c"
  proof -
    have ne: "c \<noteq> []" using m by (rule method2_nonempty)
    have "text \<noteq> []" using m method2_empty by auto
    then show ?thesis
      using t f m ne by (simp add: extract_name_from_text_def Let_def or_keep_def falsy_def)
  qed
  with method2_refines show ?thesis by blast
qed

text \<open>A page on which the first strategy fails and the second finds the name.\<close>

theorem second_strategy_amended_witness:
  "falsy (method1 (''CERTIFICATE OF COMPLETION'' @ [CHR 0x0A] @ '' John3 '' @ [CHR 0x0A]
                   @ ''This certificate is''))
   \<and> method2 (''CERTIFICATE OF COMPLETION'' @ [CHR 0x0A] @ '' John3 '' @ [CHR 0x0A]
                   @ ''This certificate is'') = Some ''John3''
   \<and> extract_name_from_text (''CERTIFICATE OF COMPLETION'' @ [CHR 0x0A] @ '' John3 '' @ [CHR 0x0A]
                   @ ''This certificate is'') = Some ''John3''"
proof -
  let ?raw = "''CERTIFICATE OF COMPLETION'' @ [CHR 0x0A] @ '' John3 '' @ [CHR 0x0A] @ ''This certificate is''"
  have t: "?raw = filter (\<lambda>c. c \<noteq> CHR 0x00) ?raw" by simp
  have f: "falsy (method1 ?raw)" by code_simp
  have m: "method2 ?raw = Some ''John3''" by code_simp
  have b: "strip_boilerplate ''John3'' = ''John3''" by code_simp
  from second_strategy_amended [of ?raw ?raw "''John3''"] t f m b show ?thesis by simp
qed

section \<open>Properties of the page loop\<close>

lemma process_pages_map:
  "process_pages i texts output_files
   = output_files @ map (\<lambda>(j, text). output_filename j text) (enumerate i texts)"
  by (induction texts arbitrary: i output_files) simp_all

text \<open>
  In the page loop the file name of page \<open>i\<close> is \<open>output_filename\<close> at \<open>i\<close> and at the text of
  that page.
\<close>

lemma process_pages_nth:
  assumes "i < length texts"
  shows "process_pages 0 texts [] ! i = output_filename i (texts ! i)"
  using assms by (simp add: process_pages_map nth_enumerate_eq)

section \<open>Properties of the grouping\<close>

lemma str_nat_digits: "str_nat n \<noteq> [] \<and> list_all is_digit (str_nat n)"
proof (induction n rule: str_nat.induct)
  case (1 n)
  have d: "is_digit (digits ! k)" if "k < 10" for k
  proof -
    have "k < length digits" using that by (simp add: digits_def)
    then show ?thesis unfolding is_digit_def by (rule nth_mem)
  qed
  show ?case
  proof (cases "n < 10")
    case True
    then show ?thesis
      by (subst str_nat.simps, subst (2) str_nat.simps) (simp add: d)
  next
    case False
    then have "str_nat n = str_nat (n div 10) @ [digits ! (n mod 10)]"
      by (subst str_nat.simps) simp
    with 1 False show ?thesis by (simp add: d)
  qed
qed

lemma zfill_digits: "zfill w (str_nat n) \<noteq> [] \<and> list_all is_digit (zfill w (str_nat n))"
proof -
  have "is_digit (CHR ''0'')" by (simp add: is_digit_def digits_def)
  then show ?thesis
    using str_nat_digits [of n] by (auto simp: zfill_def list_all_iff)
qed

lemma concat_upt_first:
  assumes "k \<le> m" and "\<And>n. n < k \<Longrightarrow> F n = []"
  shows "concat (map F [0..<Suc m]) = F k @ concat (map F [Suc k..<Suc m])"
proof -
  have "[0..<k + (Suc m - k)] = [0..<k] @ [k..<k + (Suc m - k)]"
    by (rule upt_add_eq_append) simp
  moreover have "k + (Suc m - k) = Suc m"
    using assms(1) by simp
  moreover have "[k..<Suc m] = k # [Suc k..<Suc m]"
    using assms(1) by (simp add: upt_conv_Cons)
  ultimately have "[0..<Suc m] = [0..<k] @ [k] @ [Suc k..<Suc m]"
    by simp
  moreover have "concat (map F [0..<k]) = []"
    using assms(2) by (intro concat_map_empty) auto
  ultimately show ?thesis by simp
qed

lemma paths_grp_lazy:
  "paths (Grp i (Lazy p)) (b, s, g)
   = map (\<lambda>n. advance n (b, s, g(i \<mapsto> take n s))) [0..<Suc (length (takeWhile p s))]"
proof -
  have le: "length (takeWhile p s) \<le> length s"
    by (rule length_takeWhile_le)
  have "\<And>n. n \<in> set [0..<Suc (length (takeWhile p s))] \<Longrightarrow>
      (case advance n (b, s, g) of (bef', rest', g') \<Rightarrow>
          (bef', rest', g'(i \<mapsto> take (length s - length rest') s)))
      = advance n (b, s, g(i \<mapsto> take n s))"
    using le by (auto simp: advance_def)
  then have "map (\<lambda>n. case advance n (b, s, g) of (bef', rest', g') \<Rightarrow>
          (bef', rest', g'(i \<mapsto> take (length s - length rest') s)))
          [0..<Suc (length (takeWhile p s))]
        = map (\<lambda>n. advance n (b, s, g(i \<mapsto> take n s))) [0..<Suc (length (takeWhile p s))]"
    by (rule map_cong [OF refl])
  then show ?thesis
    by (simp add: Let_def comp_def del: upt_Suc)
qed

lemma paths_lit_eol:
  "paths (Seq (Lit l) Eol) (b, s, g) \<noteq> [] \<Longrightarrow> s = l \<or> s = l @ [CHR 0x0A]"
  by (auto simp: advance_def split: if_splits dest: startswith_drop)

lemma paths_lit_eol_exact:
  "paths (Seq (Lit l) Eol) (b, l, g) = [(rev l @ b, [], g)]"
  using startswith_append [of l "[]"] by (simp add: advance_def)


lemma space_is_space: "is_space (CHR '' '')"
  by (simp add: is_space_def space_chars_def)

lemma space_not_digit: "\<not> is_digit (CHR '' '')"
  by (simp add: is_digit_def digits_def)

lemma period_not_space: "\<not> is_space (CHR ''.'')"
  by (simp add: is_space_def space_chars_def)

text \<open>
  The file name of a page parses back into its name: the group of the pattern is the text
  between the number and the extension, when that text is free of newlines and does not
  begin with whitespace.
\<close>

lemma numbered_capture:
  assumes num: "num \<noteq> []" "list_all is_digit num"
    and nm: "nm = [] \<or> \<not> is_space (hd nm)" "CHR 0x0A \<notin> set nm"
  shows "\<exists>m. re_match numbered_pattern (num @ '' '' @ nm @ ''.pdf'') = Some m
              \<and> m_groups m 1 = Some nm"
proof -
  define ext where "ext = ''.pdf''"
  define E where "E = Seq (Lit ext) Eol"
  define notnl where "notnl = (\<lambda>c. c \<noteq> CHR 0x0A)"
  define R2 where "R2 = Seq (Grp 1 (Lazy notnl)) E"
  define R1 where "R1 = Seq (Rep is_space 1 None) R2"
  define s2 where "s2 = nm @ ext"
  define s1 where "s1 = CHR '' '' # s2"
  define b2 where "b2 = CHR '' '' # rev num"
  define g1 where "g1 = (\<lambda>n. (Map.empty :: nat \<rightharpoonup> string)(1 \<mapsto> take n s2))"
  define G where "G = (\<lambda>n. paths E (advance n (b2, s2, g1 n)))"
  have pat: "numbered_pattern = Seq (Rep is_digit 1 None) R1"
    by (simp add: numbered_pattern_def plus_def R1_def R2_def E_def notnl_def ext_def)
  have ext_ne: "ext \<noteq> []" and ext_hd: "hd ext = CHR ''.''" and ext_last: "last ext = CHR ''f''"
    and ext_nl: "CHR 0x0A \<notin> set ext"
    by (simp_all add: ext_def)
  have s2_hd: "\<not> is_space (hd s2)"
    using nm(1) ext_hd period_not_space by (cases nm) (simp_all add: s2_def)
  have s2_ne: "s2 \<noteq> []"
    using ext_ne by (simp add: s2_def)
  have run_d: "takeWhile is_digit (num @ s1) = num"
    using num(2) space_not_digit by (intro takeWhile_run) (simp_all add: s1_def)
  have "1 \<le> length num"
    using num(1) by (cases num) simp_all
  then have step1: "paths (Seq (Rep is_digit 1 None) R1) ([], num @ s1, Map.empty)
      = paths R1 (rev num, s1, Map.empty)
        @ concat (map (\<lambda>n. paths R1 (advance n ([], num @ s1, Map.empty))) (rev [1..<length num]))"
    unfolding paths_seq_rep run_d
    by (subst concat_rev_upt_first [where k = "length num"]) (simp_all add: advance_simp)
  have "takeWhile is_space ([CHR '' ''] @ s2) = [CHR '' '']"
    using space_is_space s2_hd by (intro takeWhile_run) simp_all
  then have run_s: "takeWhile is_space s1 = [CHR '' '']"
    by (simp add: s1_def)
  have step2: "paths R1 (rev num, s1, Map.empty) = paths R2 (b2, s2, Map.empty)"
    unfolding R1_def paths_seq_rep run_s by (simp add: advance_simp s1_def b2_def)
  have "list_all notnl s2"
    using nm(2) ext_nl by (auto simp: s2_def notnl_def list_all_iff)
  then have tw: "takeWhile notnl s2 = s2"
    unfolding list_all_iff takeWhile_eq_all_conv .
  have run_n: "length (takeWhile notnl s2) = length s2"
    unfolding tw ..
  have step3: "paths R2 (b2, s2, Map.empty) = concat (map G [0..<Suc (length s2)])"
    unfolding R2_def paths.simps(5) paths_grp_lazy run_n G_def g1_def
    by (simp add: comp_def del: upt_Suc)
  have before: "G n = []" if "n < length nm" for n
  proof (rule ccontr)
    assume "G n \<noteq> []"
    then have "drop n s2 = ext \<or> drop n s2 = ext @ [CHR 0x0A]"
      unfolding G_def E_def advance_simp by (rule paths_lit_eol)
    moreover have d: "drop n s2 = drop n nm @ ext"
      using that by (simp add: s2_def)
    moreover have "drop n nm \<noteq> []"
      using that by simp
    moreover have "last (drop n nm @ ext) = CHR ''f''"
      using ext_ne ext_last by simp
    ultimately show False by auto
  qed
  have dr: "drop (length nm) s2 = ext" and tk: "take (length nm) s2 = nm"
    by (simp_all add: s2_def)
  have at: "G (length nm) = [(rev ext @ rev nm @ b2, [], g1 (length nm))]"
    unfolding G_def E_def advance_simp dr tk paths_lit_eol_exact ..
  have "length nm \<le> length s2"
    by (simp add: s2_def)
  then have split: "concat (map G [0..<Suc (length s2)])
      = G (length nm) @ concat (map G [Suc (length nm)..<Suc (length s2)])"
    using before by (rule concat_upt_first)
  have p2: "paths R2 (b2, s2, Map.empty)
      = (rev ext @ rev nm @ b2, [], g1 (length nm))
        # concat (map G [Suc (length nm)..<Suc (length s2)])"
    unfolding step3 split at by (simp only: append_Cons append_Nil)
  have "paths numbered_pattern ([], num @ s1, Map.empty)
      = (rev ext @ rev nm @ b2, [], g1 (length nm))
        # (concat (map G [Suc (length nm)..<Suc (length s2)])
           @ concat (map (\<lambda>n. paths R1 (advance n ([], num @ s1, Map.empty)))
               (rev [1..<length num])))"
    unfolding pat step1 step2 p2 by (simp only: append_Cons)
  then have "\<exists>m. re_match numbered_pattern (num @ s1) = Some m \<and> m_groups m 1 = Some nm"
    by (simp add: re_match_def match_at_def g1_def tk)
  then show ?thesis
    by (simp add: s1_def s2_def ext_def)
qed


lemma strip_ends:
  "strip s = [] \<or> (\<not> is_space (hd (strip s)) \<and> \<not> is_space (last (strip s)))"
proof (cases "strip s = []")
  case True
  then show ?thesis by simp
next
  case False
  define t where "t = dropWhile is_space s"
  define u where "u = dropWhile is_space (rev t)"
  have st: "strip s = rev u"
    by (simp add: strip_def rstrip_def lstrip_def t_def u_def)
  with False have u: "u \<noteq> []" by simp
  then have "\<not> is_space (hd u)"
    unfolding u_def by (rule hd_dropWhile)
  then have l: "\<not> is_space (last (rev u))"
    using u by (simp add: last_rev)
  have "rev t = takeWhile is_space (rev t) @ u"
    by (simp add: u_def)
  then have "last (rev t) = last u"
    using u by (metis last_appendR)
  moreover have t: "t \<noteq> []"
    using u by (auto simp: u_def)
  ultimately have "last u = hd t"
    by (simp add: last_rev)
  moreover have "\<not> is_space (hd t)"
    using t unfolding t_def by (rule hd_dropWhile)
  ultimately have "\<not> is_space (hd (rev u))"
    using u by (simp add: hd_rev)
  with l st show ?thesis by simp
qed

lemma strip_fixed:
  assumes "s = [] \<or> (\<not> is_space (hd s) \<and> \<not> is_space (last s))"
  shows "strip s = s"
proof (cases "s = []")
  case True
  then show ?thesis by (simp add: strip_def rstrip_def lstrip_def)
next
  case False
  with assms strip_name [of s "[]"] show ?thesis by simp
qed

lemma split_acc_tokens:
  assumes "t \<in> set (split_acc cur s)" and "\<forall>c \<in> set cur. \<not> is_space c"
  shows "t \<noteq> [] \<and> (\<forall>c \<in> set t. \<not> is_space c)"
  using assms
proof (induction s arbitrary: cur)
  case Nil
  then show ?case by (auto split: if_splits)
next
  case (Cons c cs)
  show ?case
  proof (cases "is_space c")
    case True
    with Cons.prems have "t = cur \<and> cur \<noteq> [] \<or> t \<in> set (split_acc [] cs)"
      by (auto split: if_splits)
    then show ?thesis
      using Cons.prems(2) Cons.IH [of "[]"] by auto
  next
    case False
    with Cons.prems have "t \<in> set (split_acc (cur @ [c]) cs)" by simp
    moreover have "\<forall>x \<in> set (cur @ [c]). \<not> is_space x"
      using False Cons.prems(2) by simp
    ultimately show ?thesis by (rule Cons.IH)
  qed
qed

lemma split_ws_tokens:
  "t \<in> set (split_ws s) \<Longrightarrow> t \<noteq> [] \<and> \<not> is_space (hd t) \<and> \<not> is_space (last t)"
  using split_acc_tokens [of t "[]" s] by (auto simp: split_ws_def)

lemma last_name_of_starts:
  assumes "2 \<le> length parts"
    and "\<And>t. t \<in> set parts \<Longrightarrow> t \<noteq> [] \<and> \<not> is_space (hd t)"
  shows "last_name_of parts \<noteq> [] \<and> \<not> is_space (hd (last_name_of parts))"
proof -
  have "\<And>k. k < length parts \<Longrightarrow> parts ! k \<noteq> [] \<and> \<not> is_space (hd (parts ! k))"
    using assms(2) nth_mem by blast
  then have "parts ! (length parts - 1) \<noteq> [] \<and> \<not> is_space (hd (parts ! (length parts - 1)))"
    "parts ! (length parts - 2) \<noteq> [] \<and> \<not> is_space (hd (parts ! (length parts - 2)))"
    "parts ! (length parts - 3) \<noteq> [] \<and> \<not> is_space (hd (parts ! (length parts - 3)))"
    using assms(1) by simp_all
  then show ?thesis
    unfolding last_name_of_def Let_def by (simp split: if_splits)
qed

text \<open>A formatted name neither begins nor ends with whitespace.\<close>

lemma format_trimmed:
  "format_name_for_filename x = []
   \<or> (\<not> is_space (hd (format_name_for_filename x)) \<and> \<not> is_space (last (format_name_for_filename x)))"
proof -
  have unk: "\<not> is_space (hd ''unknown'') \<and> \<not> is_space (last ''unknown'')"
    by (simp add: is_space_def space_chars_def)
  show ?thesis
  proof (cases x)
    case None
    with unk show ?thesis by (simp add: format_name_for_filename_def)
  next
    case (Some nm)
    let ?parts = "split_ws (clean_name_of nm)"
    show ?thesis
    proof (cases "nm = []")
      case True
      with Some unk show ?thesis by (simp add: format_name_for_filename_def)
    next
      case False
      show ?thesis
      proof (cases "length ?parts < 2")
        case True
        then have "format_name_for_filename x = clean_name_of nm"
          using Some False by (simp add: format_name_for_filename_def Let_def)
        moreover have "clean_name_of nm = strip (collapse_ws
            (re_sub (Seq WordB (Seq (Lit ''This'') WordB)) []
              (re_sub (LitI ''CERTIFICATE'') []
                (re_sub (LitI ''COMPLETION'') []
                  (re_sub (Rep is_problematic 1 (Some 1)) [] nm)))))"
          by (simp add: clean_name_of_def strip_boilerplate_def Let_def)
        ultimately show ?thesis using strip_ends by metis
      next
        case long: False
        then have len: "2 \<le> length ?parts" by simp
        have tok: "t \<noteq> [] \<and> \<not> is_space (hd t) \<and> \<not> is_space (last t)" if "t \<in> set ?parts" for t
          using that by (rule split_ws_tokens)
        have l0: "0 < length ?parts" and l1: "1 < length ?parts"
          using len by linarith+
        have first: "?parts ! 0 \<noteq> [] \<and> \<not> is_space (last (?parts ! 0))"
          using tok nth_mem [OF l0] by blast
        have second: "?parts ! 1 \<noteq> [] \<and> \<not> is_space (hd (?parts ! 1))"
          using tok nth_mem [OF l1] by blast
        have surname: "last_name_of ?parts \<noteq> [] \<and> \<not> is_space (hd (last_name_of ?parts))"
          using len tok by (intro last_name_of_starts) blast+
        define X where "X =
          (if length ?parts \<ge> 3 \<and> lower (?parts ! 1) \<in> set [''sta.'', ''sto.'', ''sta'', ''sto'']
           then ?parts ! 1 @ '' '' @ join '' '' (drop 2 ?parts)
           else last_name_of ?parts)"
        have "format_name_for_filename x = X @ '', '' @ ?parts ! 0"
          using Some False long by (auto simp: format_name_for_filename_def Let_def X_def)
        moreover have "X \<noteq> [] \<and> \<not> is_space (hd X)"
          using second surname by (simp add: X_def)
        ultimately have "format_name_for_filename x \<noteq> []
            \<and> hd (format_name_for_filename x) = hd X
            \<and> last (format_name_for_filename x) = last (?parts ! 0)"
          using first by simp
        with first \<open>X \<noteq> [] \<and> \<not> is_space (hd X)\<close> show ?thesis by simp
      qed
    qed
  qed
qed


lemma format_no_newline: "CHR 0x0A \<notin> set (format_name_for_filename x)"
  using format_chars_safe [of x] by (auto simp: problematic_def)

lemma lower_extension: "lower ''.pdf'' = ''.pdf''"
  by code_simp

lemma endswith_extension: "endswith (lower (s @ ''.pdf'')) ''.pdf''"
proof -
  have "rev (lower (s @ ''.pdf'')) = rev ''.pdf'' @ rev (lower s)"
    using lower_extension by (simp add: lower_def)
  then show ?thesis
    unfolding endswith_def by (simp only: startswith_append)
qed

text \<open>The step of the grouping loop on the file of a page.\<close>

lemma group_page_file:
  "group_file (page_file n name) st =
     (let nm = format_name_for_filename name
      in if lower nm = ''unknown'' then st
         else \<lparr>created_folders = insert nm (created_folders st),
               organized_files = organized_files st @ [(nm, nm @ ''.pdf'')],
               folder_files = copy2 (page_file n name) (nm, nm @ ''.pdf'') (folder_files st)\<rparr>)"
proof -
  let ?nm = "format_name_for_filename name"
  let ?num = "zfill 3 (str_nat n)"
  have e: "endswith (lower (page_file n name)) ''.pdf''"
    using endswith_extension [of "?num @ '' '' @ ?nm"] by (simp add: page_file_def)
  have "?nm = [] \<or> \<not> is_space (hd ?nm)"
    using format_trimmed [of name] by blast
  then obtain m where m: "re_match numbered_pattern (page_file n name) = Some m"
    and g: "m_groups m 1 = Some ?nm"
    using numbered_capture [of ?num ?nm] zfill_digits [of 3 n] format_no_newline [of name]
    unfolding page_file_def by blast
  have s: "strip ?nm = ?nm"
    using format_trimmed [of name] by (rule strip_fixed)
  show ?thesis
    unfolding group_file_def using e m g s by (simp add: Let_def)
qed

lemma group_page_files:
  "group_files (map (\<lambda>(n, name). page_file n name) outs) st =
     \<lparr>created_folders = created_folders st
        \<union> (\<lambda>(n, name). format_name_for_filename name)
            ` set (filter (\<lambda>(n, name). lower (format_name_for_filename name) \<noteq> ''unknown'') outs),
      organized_files = organized_files st
        @ map (\<lambda>(n, name). (format_name_for_filename name, format_name_for_filename name @ ''.pdf''))
            (filter (\<lambda>(n, name). lower (format_name_for_filename name) \<noteq> ''unknown'') outs),
      folder_files = folder_files (group_files (map (\<lambda>(n, name). page_file n name) outs) st)\<rparr>"
proof (induction outs arbitrary: st)
  case Nil
  then show ?case by simp
next
  case (Cons out outs)
  obtain n name where out: "out = (n, name)" by (cases out)
  show ?case
    unfolding out
    by (subst (1 2) list.map, subst (1 2) group_files.simps, subst Cons.IH)
       (simp add: group_page_file Let_def)
qed

lemma output_filename_page_file:
  "output_filename i text = page_file (i + 1) (page_name text)"
  by (auto simp: output_filename_def page_file_def Let_def falsy_def format_name_for_filename_def)

text \<open>
  Where the grouping copies to: the outputs whose formatted name, lower-cased, is not
  \<open>unknown\<close> go, in order, to the folder of that name, under the name with the extension
  \<open>.pdf\<close>, and the folders created are those of the names kept.
\<close>

lemma grouping_destinations:
  "organized_files (organize (map (\<lambda>(n, name). page_file n name) outs))
     = map (\<lambda>(n, name). (format_name_for_filename name, format_name_for_filename name @ ''.pdf''))
         (filter (\<lambda>(n, name). lower (format_name_for_filename name) \<noteq> ''unknown'') outs)
   \<and> created_folders (organize (map (\<lambda>(n, name). page_file n name) outs))
     = (\<lambda>(n, name). format_name_for_filename name)
         ` set (filter (\<lambda>(n, name). lower (format_name_for_filename name) \<noteq> ''unknown'') outs)"
proof -
  let ?init = "\<lparr>created_folders = {}, organized_files = [], folder_files = []\<rparr>"
  note group_page_files [of outs ?init]
  then show ?thesis
    unfolding organize_def by (metis (no_types, lifting) append_Nil grouping.select_convs(1,2) sup_bot_left)
qed

text \<open>
  The destination of a copy is the folder and the name without the page number, so a
  file of a folder is always the one file named after the folder, and a later copy into
  the folder replaces it: whatever the listing, no folder ends with more than one file.
\<close>

lemma copy2_distinct:
  assumes "distinct (map fst fs)"
  shows "distinct (map fst (copy2 source dest fs))"
proof -
  have "distinct (map fst (filter (\<lambda>(p, src). p \<noteq> dest) fs))"
    using assms by (rule distinct_map_filter)
  moreover have "dest \<notin> fst ` set (filter (\<lambda>(p, src). p \<noteq> dest) fs)"
    by auto
  ultimately show ?thesis
    by (simp add: copy2_def)
qed

lemma copy2_all:
  assumes "list_all Q fs" and "Q (dest, source)"
  shows "list_all Q (copy2 source dest fs)"
  using assms by (simp add: copy2_def list_all_iff)

lemma group_file_named:
  assumes "distinct (map fst (folder_files st))"
    and "list_all (\<lambda>(p, src). snd p = fst p @ ''.pdf'') (folder_files st)"
  shows "distinct (map fst (folder_files (group_file f st)))
         \<and> list_all (\<lambda>(p, src). snd p = fst p @ ''.pdf'') (folder_files (group_file f st))"
  using assms
  by (auto simp: group_file_def Let_def split: option.splits
           intro!: copy2_distinct copy2_all)

lemma group_files_named:
  assumes "distinct (map fst (folder_files st))"
    and "list_all (\<lambda>(p, src). snd p = fst p @ ''.pdf'') (folder_files st)"
  shows "distinct (map fst (folder_files (group_files fs st)))
         \<and> list_all (\<lambda>(p, src). snd p = fst p @ ''.pdf'') (folder_files (group_files fs st))"
  using assms
proof (induction fs arbitrary: st)
  case Nil
  then show ?case by simp
next
  case (Cons f fs)
  from group_file_named [OF Cons.prems, of f]
  have "distinct (map fst (folder_files (group_file f st)))"
    and "list_all (\<lambda>(p, src). snd p = fst p @ ''.pdf'') (folder_files (group_file f st))"
    by blast+
  then have "distinct (map fst (folder_files (group_files fs (group_file f st))))
      \<and> list_all (\<lambda>(p, src). snd p = fst p @ ''.pdf'')
          (folder_files (group_files fs (group_file f st)))"
    by (rule Cons.IH)
  then show ?case by simp
qed

lemma one_entry_per_folder:
  assumes "distinct (map fst fs)"
    and "list_all (\<lambda>(p, src). snd p = fst p @ ext) fs"
  shows "length (filter (\<lambda>(p, src). fst p = folder) fs) \<le> 1"
  using assms
proof (induction fs)
  case Nil
  then show ?case by simp
next
  case (Cons x xs)
  from Cons.prems have d: "distinct (map fst xs)" and nx: "fst x \<notin> fst ` set xs"
    and a: "list_all (\<lambda>(p, src). snd p = fst p @ ext) xs"
    and ax: "snd (fst x) = fst (fst x) @ ext"
    by (auto simp: case_prod_unfold)
  show ?case
  proof (cases "fst (fst x) = folder")
    case True
    have "filter (\<lambda>(p, src). fst p = folder) xs = []"
    proof (rule ccontr)
      assume "filter (\<lambda>(p, src). fst p = folder) xs \<noteq> []"
      then obtain y where y: "y \<in> set xs" "fst (fst y) = folder"
        by (auto simp: filter_empty_conv)
      with a have "snd (fst y) = folder @ ext"
        by (auto simp: list_all_iff)
      with y(2) ax True have "fst y = fst x"
        by (simp add: prod_eq_iff)
      with y(1) nx show False
        by (metis imageI)
    qed
    then show ?thesis by (simp add: case_prod_unfold)
  next
    case False
    with Cons.IH [OF d a] show ?thesis by (simp add: case_prod_unfold)
  qed
qed

lemma folder_holds_one_file: "length (files_in folder (organize listing)) \<le> 1"
proof -
  let ?init = "\<lparr>created_folders = {}, organized_files = [], folder_files = []\<rparr>"
  have "distinct (map fst (folder_files ?init))"
    and "list_all (\<lambda>(p, src). snd p = fst p @ ''.pdf'') (folder_files ?init)"
    by simp_all
  then have "distinct (map fst (folder_files (organize listing)))
      \<and> list_all (\<lambda>(p, src). snd p = fst p @ ''.pdf'') (folder_files (organize listing))"
    unfolding organize_def by (rule group_files_named)
  then have "length (filter (\<lambda>(p, src). fst p = folder) (folder_files (organize listing))) \<le> 1"
    using one_entry_per_folder by blast
  then show ?thesis
    unfolding files_in_def by simp
qed

text \<open>
  Claim C3. The claim expects the folder \<open>Cruz, Juan\<close> to hold two files after the three
  outputs of its example are grouped, and the loop does take both pages of that name to
  the one folder it has created for them. But both are copied onto the same path, the
  name without the page number: the copy of page 4 replaces the copy of page 1, and the
  folder holds a single file, that of page 4.
\<close>

theorem grouping_overwrites:
  "organized_files (organize [''001 Cruz, Juan.pdf'', ''004 Cruz, Juan.pdf'', ''002 unknown.pdf''])
     = [(''Cruz, Juan'', ''Cruz, Juan.pdf''), (''Cruz, Juan'', ''Cruz, Juan.pdf'')]
   \<and> folder_files (organize [''001 Cruz, Juan.pdf'', ''004 Cruz, Juan.pdf'', ''002 unknown.pdf''])
     = [((''Cruz, Juan'', ''Cruz, Juan.pdf''), ''004 Cruz, Juan.pdf'')]
   \<and> files_in ''Cruz, Juan''
        (organize [''001 Cruz, Juan.pdf'', ''004 Cruz, Juan.pdf'', ''002 unknown.pdf''])
     = [''Cruz, Juan.pdf'']"
  by code_simp

end
